theory Spec2Isabelle
  imports
    Main
    "HOL-Library.Multiset"
    "HOL-Library.Char_ord"
    "HOL-Library.List_Lexorder"
begin

section \<open>Curation audit for pnpm lock files: the data model\<close>

text \<open>
  The development follows \<^verbatim>\<open>checks/combined_audit/main.go\<close>. Go strings are byte
  sequences and are modelled as \<^typ>\<open>string\<close>; Go maps are partial functions, and
  wherever the program ranges over a map the order in which the runtime hands out the
  keys is an explicit argument, because Go leaves that order unspecified.
\<close>

text \<open>
  A dynamically typed value (\<^verbatim>\<open>interface{}\<close>) as the YAML decoder produces it. The
  program only ever asks whether such a value is a \<^verbatim>\<open>map[string]interface{}\<close>.
\<close>

datatype iface =
    IMap "(string \<times> iface) list"
  | ISeq "iface list"
  | IScalar string

record PackageInfo =
  pkg_Version :: string
  pkg_Type :: string
  pkg_Resolution :: "(string \<times> iface) list option"
  pkg_Engines :: "(string \<times> iface) list option"

record Dependency =
  dep_Name :: string
  dep_Version :: string
  dep_Type :: string

record DependencyTree =
  Packages :: "string \<rightharpoonup> PackageInfo"

text \<open>
  \<^verbatim>\<open>LockData.Packages\<close> is a map from lock keys to maps; the list is that map in the
  order in which the \<^verbatim>\<open>range\<close> loop of \<^verbatim>\<open>parsePnpmLock\<close> visits it.
\<close>

type_synonym LockData = "(string \<times> (string \<rightharpoonup> iface)) list"

section \<open>The string functions of the Go library that the program calls\<close>

text \<open>Every separator the program passes is a single byte, so separators are characters.\<close>

definition strings_HasPrefix :: "string \<Rightarrow> char \<Rightarrow> bool" where
  "strings_HasPrefix s c = (case s of [] \<Rightarrow> False | x # _ \<Rightarrow> x = c)"

text \<open>\<^verbatim>\<open>strings.LastIndex\<close>: the position of the last occurrence, or \<open>-1\<close>.\<close>

definition strings_LastIndex :: "string \<Rightarrow> char \<Rightarrow> int" where
  "strings_LastIndex s c =
     (if c \<in> set s
      then int (length s) - 1 - int (length (takeWhile (\<lambda>x. x \<noteq> c) (rev s)))
      else - 1)"

text \<open>Cutting at separators from the left, at most \<open>k\<close> times.\<close>

fun genSplit :: "nat \<Rightarrow> char \<Rightarrow> string \<Rightarrow> string list" where
  "genSplit 0 sep s = [s]"
| "genSplit (Suc k) sep s =
     (if sep \<in> set s
      then takeWhile (\<lambda>c. c \<noteq> sep) s # genSplit k sep (tl (dropWhile (\<lambda>c. c \<noteq> sep) s))
      else [s])"

text \<open>
  \<^verbatim>\<open>strings.SplitN(s, sep, n)\<close>: no pieces for \<open>n = 0\<close>, every piece for \<open>n < 0\<close>,
  and otherwise at most \<open>n\<close> pieces, the last one being the unsplit rest.
\<close>

definition strings_SplitN :: "string \<Rightarrow> char \<Rightarrow> int \<Rightarrow> string list" where
  "strings_SplitN s sep n =
     (if n = 0 then []
      else if n < 0 then genSplit (length s) sep s
      else genSplit (nat n - 1) sep s)"

definition strings_Split :: "string \<Rightarrow> char \<Rightarrow> string list" where
  "strings_Split s sep = strings_SplitN s sep (- 1)"

section \<open>The lock file parser\<close>

definition parsePackageKey :: "string \<Rightarrow> string \<times> string" where
  "parsePackageKey packageKey =
     (if strings_HasPrefix packageKey CHR ''@'' then
        (let lastAtIndex = strings_LastIndex packageKey CHR ''@'' in
         if lastAtIndex > 0
         then (take (nat lastAtIndex) packageKey, drop (nat (lastAtIndex + 1)) packageKey)
         else ('''', ''''))
      else
        (let parts = strings_SplitN packageKey CHR ''@'' 2 in
         if length parts = 2 then (parts ! 0, parts ! 1) else ('''', '''')))"

text \<open>The checked type assertion \<^verbatim>\<open>v.(map[string]interface{})\<close> on a looked-up key.\<close>

fun asStringMap :: "iface option \<Rightarrow> (string \<times> iface) list option" where
  "asStringMap (Some (IMap m)) = Some m"
| "asStringMap _ = None"

text \<open>One round of the loop over \<^verbatim>\<open>lockData.Packages\<close>.\<close>

definition processEntry ::
  "(string \<rightharpoonup> PackageInfo) \<Rightarrow> string \<times> (string \<rightharpoonup> iface) \<Rightarrow> (string \<rightharpoonup> PackageInfo)" where
  "processEntry allPackages e =
     (case e of (packageKey, packageInfo) \<Rightarrow>
        (case parsePackageKey packageKey of (packageName, version) \<Rightarrow>
           if packageName \<noteq> '''' \<and> version \<noteq> '''' then
             allPackages(packageName \<mapsto>
               \<lparr> pkg_Version = version,
                 pkg_Type = ''package'',
                 pkg_Resolution = asStringMap (packageInfo ''resolution''),
                 pkg_Engines = asStringMap (packageInfo ''engines'') \<rparr>)
           else allPackages))"

text \<open>
  What \<^verbatim>\<open>os.Stat\<close> and \<^verbatim>\<open>ioutil.ReadFile\<close> find at a path, and the three errors
  \<^verbatim>\<open>parsePnpmLock\<close> builds with \<^verbatim>\<open>fmt.Errorf\<close>.
\<close>

datatype file_state = NotExist | Unreadable string | Content string

datatype parse_error =
    NotFoundAt string
  | ErrorReading string string
  | ErrorParsingYAML string

text \<open>
  The YAML decoder is the library's; it is a parameter that either fails with a message
  or yields the decoded \<^verbatim>\<open>packages\<close> section.
\<close>

definition parsePnpmLock ::
  "(string \<Rightarrow> string + LockData) \<Rightarrow> (string \<Rightarrow> file_state) \<Rightarrow> string
     \<Rightarrow> parse_error + DependencyTree" where
  "parsePnpmLock yaml_Unmarshal fs lockFilePath =
     (case fs lockFilePath of
        NotExist \<Rightarrow> Inl (NotFoundAt lockFilePath)
      | Unreadable err \<Rightarrow> Inl (ErrorReading lockFilePath err)
      | Content data \<Rightarrow>
          (case yaml_Unmarshal data of
             Inl err \<Rightarrow> Inl (ErrorParsingYAML err)
           | Inr lockData \<Rightarrow> Inr \<lparr> Packages = foldl processEntry Map.empty lockData \<rparr>))"

text \<open>
  The pattern \<^verbatim>\<open>\(([^@]+)@([^)]+)\)\<close> of \<^verbatim>\<open>extractIndirectDependencies\<close>, tried
  at the head of a string. After the opening parenthesis the first group is the longest
  run of bytes other than \<open>@\<close>, which has to be non-empty and followed by \<open>@\<close>; the
  second group is the longest run of bytes other than the closing parenthesis, which has
  to be non-empty and followed by one. Neither group can give a byte back, so this is
  the only way the pattern matches from a given start. The result holds both groups and
  what follows the match.
\<close>

definition matchHere :: "string \<Rightarrow> (string \<times> string \<times> string) option" where
  "matchHere s =
     (case s of
        [] \<Rightarrow> None
      | c # t \<Rightarrow>
          if c \<noteq> CHR ''('' then None
          else
            (let name = takeWhile (\<lambda>x. x \<noteq> CHR ''@'') t;
                 afterName = dropWhile (\<lambda>x. x \<noteq> CHR ''@'') t
             in if name = [] then None
                else
                  (case afterName of
                     [] \<Rightarrow> None
                   | _ # u \<Rightarrow>
                       (let version = takeWhile (\<lambda>x. x \<noteq> CHR '')'') u;
                            afterVersion = dropWhile (\<lambda>x. x \<noteq> CHR '')'') u
                        in if version = [] then None
                           else
                             (case afterVersion of
                                [] \<Rightarrow> None
                              | _ # rest \<Rightarrow> Some (name, version, rest))))))"

text \<open>
  \<^verbatim>\<open>FindAllStringSubmatch(versionString, -1)\<close>: the leftmost match, then the matches of
  what follows it. The counter bounds the number of bytes still to be looked at.
\<close>

fun findAll :: "nat \<Rightarrow> string \<Rightarrow> (string \<times> string) list" where
  "findAll 0 s = []"
| "findAll (Suc k) [] = []"
| "findAll (Suc k) (c # t) =
     (case matchHere (c # t) of
        Some (name, version, rest) \<Rightarrow> (name, version) # findAll k rest
      | None \<Rightarrow> findAll k t)"

definition extractIndirectDependencies :: "string \<Rightarrow> (string \<rightharpoonup> PackageInfo)" where
  "extractIndirectDependencies versionString =
     foldl (\<lambda>indirectDeps (packageName, packageVersion).
              indirectDeps(packageName \<mapsto>
                \<lparr> pkg_Version = packageVersion, pkg_Type = ''indirect'',
                  pkg_Resolution = None, pkg_Engines = None \<rparr>))
       Map.empty (findAll (length versionString) versionString)"

section \<open>The enumerator\<close>

text \<open>
  \<^verbatim>\<open>fetchDependenciesFromTree\<close> collects the keys of the map in the order \<open>ks\<close> in
  which the runtime ranges over them, sorts them with \<^verbatim>\<open>sort.Strings\<close> (bytewise
  order, which is the order of \<^typ>\<open>string\<close> here) and looks every one up again. A key
  that is missing reads as the zero value. The error it returns is always \<^verbatim>\<open>nil\<close>.
\<close>

definition fetchDependenciesFromTree :: "DependencyTree \<Rightarrow> string list \<Rightarrow> Dependency list" where
  "fetchDependenciesFromTree dependencies ks =
     map (\<lambda>packageName.
            (case Packages dependencies packageName of
               Some info \<Rightarrow>
                 \<lparr> dep_Name = packageName, dep_Version = pkg_Version info, dep_Type = pkg_Type info \<rparr>
             | None \<Rightarrow>
                 \<lparr> dep_Name = packageName, dep_Version = '''', dep_Type = '''' \<rparr>))
       (sort ks)"

section \<open>The registry prober\<close>

record AuditResult =
  Index :: int
  Name :: string
  Version :: string
  Type :: string
  Status :: string
  StatusCode :: int
  Error :: "string option"

text \<open>
  The network as the prober sees it: whether \<^verbatim>\<open>http.NewRequest\<close> accepts a URL, and
  what \<^verbatim>\<open>client.Do\<close> comes back with, an error or the status code of a response.
\<close>

record http_request =
  req_URL :: string
  req_Authorization :: "string option"

datatype http_reply = TransportError string | Response int

record http_env =
  newRequest :: "string \<Rightarrow> string option"
  clientDo :: "http_request \<Rightarrow> http_reply"

text \<open>Decimal formatting, \<^verbatim>\<open>%d\<close>.\<close>

fun decimal :: "nat \<Rightarrow> string" where
  "decimal n = (if n < 10 then [char_of (48 + n)] else decimal (n div 10) @ [char_of (48 + n mod 10)])"

definition itoa :: "int \<Rightarrow> string" where
  "itoa i = (if i < 0 then CHR ''-'' # decimal (nat (- i)) else decimal (nat i))"

text \<open>The status texts; each starts with the UTF-8 bytes of a pictograph.\<close>

definition crossMark :: string where
  "crossMark = [CHR 0xE2, CHR 0x9D, CHR 0x8C]"

definition checkMark :: string where
  "checkMark = [CHR 0xE2, CHR 0x9C, CHR 0x85]"

definition warningSign :: string where
  "warningSign = [CHR 0xE2, CHR 0x9A, CHR 0xA0, CHR 0xEF, CHR 0xB8, CHR 0x8F]"

definition statusInvalidScoped :: string where
  "statusInvalidScoped = crossMark @ '' Invalid scoped package format''"

definition statusRequestFailed :: string where
  "statusRequestFailed = crossMark @ '' Request Failed''"

definition statusAvailable :: string where
  "statusAvailable = checkMark @ '' Available in NPM Registry''"

definition statusBlocked :: string where
  "statusBlocked = crossMark @ '' Blocked (403 Forbidden)''"

definition statusNotFound :: string where
  "statusNotFound = crossMark @ '' Not Found (404)''"

definition statusUnexpected :: "int \<Rightarrow> string" where
  "statusUnexpected code = warningSign @ '' Unexpected Response: '' @ itoa code"

text \<open>
  The first block of \<^verbatim>\<open>checkNpmRegistry\<close>: the URL of the tarball, or nothing for a
  name that starts with \<open>@\<close> and has no slash.
\<close>

definition packageURL :: "string \<Rightarrow> string \<Rightarrow> string \<Rightarrow> string option" where
  "packageURL packageName packageVersion npmRegistryBaseURL =
     (if strings_HasPrefix packageName CHR ''@'' then
        (let parts = strings_Split packageName CHR ''/'' in
         if length parts \<ge> 2 then
           (let packageNameOnly = parts ! (length parts - 1) in
            Some (npmRegistryBaseURL @ ''/'' @ packageName @ ''/-/'' @ packageNameOnly
                    @ ''-'' @ packageVersion @ ''.tgz''))
         else None)
      else
        Some (npmRegistryBaseURL @ ''/'' @ packageName @ ''/-/'' @ packageName
                @ ''-'' @ packageVersion @ ''.tgz''))"

text \<open>
  \<^verbatim>\<open>checkNpmRegistry\<close> returns its result together with the requests it has sent over
  the network, in order.
\<close>

definition checkNpmRegistry ::
  "http_env \<Rightarrow> string \<Rightarrow> string \<Rightarrow> string \<Rightarrow> string \<Rightarrow> string
     \<Rightarrow> AuditResult \<times> http_request list" where
  "checkNpmRegistry net packageName packageVersion packageType npmRegistryBaseURL accessToken =
     (case packageURL packageName packageVersion npmRegistryBaseURL of
        None \<Rightarrow>
          (\<lparr> Index = 0, Name = packageName, Version = packageVersion, Type = packageType,
             Status = statusInvalidScoped, StatusCode = 0,
             Error = Some ''invalid scoped package format'' \<rparr>, [])
      | Some url \<Rightarrow>
          (case newRequest net url of
             Some err \<Rightarrow>
               (\<lparr> Index = 0, Name = packageName, Version = packageVersion, Type = packageType,
                  Status = statusRequestFailed, StatusCode = 0, Error = Some err \<rparr>, [])
           | None \<Rightarrow>
               (let req = \<lparr> req_URL = url,
                             req_Authorization =
                               (if accessToken \<noteq> '''' then Some (''Bearer '' @ accessToken)
                                else None) \<rparr>
                in case clientDo net req of
                     TransportError err \<Rightarrow>
                       (\<lparr> Index = 0, Name = packageName, Version = packageVersion,
                          Type = packageType, Status = statusRequestFailed, StatusCode = 0,
                          Error = Some err \<rparr>, [req])
                   | Response code \<Rightarrow>
                       (\<lparr> Index = 0, Name = packageName, Version = packageVersion,
                          Type = packageType,
                          Status =
                            (if code = 200 then statusAvailable
                             else if code = 403 then statusBlocked
                             else if code = 404 then statusNotFound
                             else statusUnexpected code),
                          StatusCode = code, Error = None \<rparr>, [req]))))"

section \<open>The concurrent audit\<close>

text \<open>
  \<^verbatim>\<open>auditDependenciesConcurrently\<close> fills the \<^verbatim>\<open>jobs\<close> channel with the whole work
  list, starts \<^verbatim>\<open>numWorkers\<close> workers and reads the \<^verbatim>\<open>results\<close> channel until it
  is closed. Both channels have room for the whole list, so no send ever blocks, and the
  pool is described by the jobs still queued, by what every worker holds (nothing, or the
  item it is probing), by the items handed to the prober so far and by the results sent
  so far. What the scheduler and the network decide is an event: a worker takes the next
  job, or the probe of a worker returns, with the network it has seen.
\<close>

record pool =
  jobs :: "Dependency list"
  workers :: "Dependency option list"
  probed :: "Dependency list"
  results :: "AuditResult list"

datatype event = Take nat | Finish nat http_env

text \<open>The loop \<^verbatim>\<open>for i := 0; i < numWorkers; i++\<close> starts no worker for a count below one.\<close>

definition startPool :: "Dependency list \<Rightarrow> int \<Rightarrow> pool" where
  "startPool deps numWorkers =
     \<lparr> jobs = deps, workers = replicate (nat numWorkers) None, probed = [], results = [] \<rparr>"

fun exec :: "string \<Rightarrow> string \<Rightarrow> event \<Rightarrow> pool \<Rightarrow> pool option" where
  "exec npmRegistryBaseURL accessToken (Take w) p =
     (case jobs p of
        [] \<Rightarrow> None
      | dep # rest \<Rightarrow>
          if w < length (workers p) \<and> workers p ! w = None
          then Some (p\<lparr> jobs := rest, workers := (workers p)[w := Some dep],
                        probed := probed p @ [dep] \<rparr>)
          else None)"
| "exec npmRegistryBaseURL accessToken (Finish w net) p =
     (if w < length (workers p) then
        (case workers p ! w of
           None \<Rightarrow> None
         | Some dep \<Rightarrow>
             Some (p\<lparr> workers := (workers p)[w := None],
                      results := results p @
                        [fst (checkNpmRegistry net (dep_Name dep) (dep_Version dep) (dep_Type dep)
                                npmRegistryBaseURL accessToken)] \<rparr>))
      else None)"

fun run :: "string \<Rightarrow> string \<Rightarrow> event list \<Rightarrow> pool \<Rightarrow> pool option" where
  "run npmRegistryBaseURL accessToken [] p = Some p"
| "run npmRegistryBaseURL accessToken (e # es) p =
     (case exec npmRegistryBaseURL accessToken e p of
        None \<Rightarrow> None
      | Some p' \<Rightarrow> run npmRegistryBaseURL accessToken es p')"

text \<open>
  The \<^verbatim>\<open>results\<close> channel is closed once every worker has returned: each worker is
  idle and has found the \<^verbatim>\<open>jobs\<close> channel drained. With no worker at all the wait
  group is at zero from the start.
\<close>

definition closed :: "pool \<Rightarrow> bool" where
  "closed p = (list_all (\<lambda>w. w = None) (workers p) \<and> (workers p = [] \<or> jobs p = []))"

text \<open>The inner loop that looks for the position of a result in the work list.\<close>

fun findIndex :: "Dependency list \<Rightarrow> AuditResult \<Rightarrow> nat \<Rightarrow> nat option" where
  "findIndex [] result i = None"
| "findIndex (dep # deps) result i =
     (if dep_Name dep = Name result \<and> dep_Version dep = Version result then Some i
      else findIndex deps result (Suc i))"

definition collectResult ::
  "Dependency list \<Rightarrow> (nat \<rightharpoonup> AuditResult) \<Rightarrow> AuditResult \<Rightarrow> (nat \<rightharpoonup> AuditResult)" where
  "collectResult deps resultMap result =
     (case findIndex deps result 0 of
        None \<Rightarrow> resultMap
      | Some i \<Rightarrow> resultMap(i \<mapsto> result\<lparr> Index := int i \<rparr>))"

definition collectResults :: "Dependency list \<Rightarrow> AuditResult list \<Rightarrow> (nat \<rightharpoonup> AuditResult)" where
  "collectResults deps rs = foldl (collectResult deps) Map.empty rs"

text \<open>The final loop prints position \<open>i\<close> when the map has a result for it.\<close>

definition reportEntries :: "Dependency list \<Rightarrow> (nat \<rightharpoonup> AuditResult) \<Rightarrow> (nat \<times> AuditResult) list" where
  "reportEntries deps resultMap =
     List.map_filter (\<lambda>i. map_option (Pair i) (resultMap i)) [0..<length deps]"

definition progressLine :: "nat \<Rightarrow> nat \<Rightarrow> string" where
  "progressLine completed n =
     CHR 0x0D # ''Progress: '' @ itoa (int completed) @ ''/'' @ itoa (int n) @ '' packages checked''"

definition reportLine :: "nat \<Rightarrow> nat \<times> AuditResult \<Rightarrow> string" where
  "reportLine n e =
     (case e of (i, result) \<Rightarrow>
        CHR 0x0A # ''['' @ itoa (int i + 1) @ ''/'' @ itoa (int n) @ ''] '' @ Name result @ ''@''
          @ Version result @ '' ('' @ Type result @ '') '' @ Status result
          @ (case Error result of None \<Rightarrow> '''' | Some err \<Rightarrow> '' - Error: '' @ err))"

text \<open>Everything the function prints, given the results in the order of their arrival.\<close>

definition auditOutput :: "Dependency list \<Rightarrow> AuditResult list \<Rightarrow> string list" where
  "auditOutput deps rs =
     map (\<lambda>completed. progressLine completed (length deps)) [1..<Suc (length rs)]
       @ [[CHR 0x0A]]
       @ map (reportLine (length deps)) (reportEntries deps (collectResults deps rs))"

text \<open>
  The function under a schedule of events. It prints once the schedule has brought the
  pool to the point where the results channel is closed; a schedule that asks for a step
  the pool cannot take, or that stops earlier, is not a run of the function.
\<close>

definition auditDependenciesConcurrently ::
  "Dependency list \<Rightarrow> string \<Rightarrow> string \<Rightarrow> int \<Rightarrow> event list \<Rightarrow> string list option" where
  "auditDependenciesConcurrently deps npmRegistryBaseURL accessToken numWorkers schedule =
     (case run npmRegistryBaseURL accessToken schedule (startPool deps numWorkers) of
        None \<Rightarrow> None
      | Some p \<Rightarrow> if closed p then Some (auditOutput deps (results p)) else None)"

section \<open>The worker count on the command line\<close>

text \<open>
  \<^verbatim>\<open>fmt.Sscanf(s, "%d", &numWorkers)\<close> as the Go library documents it: leading white
  space is skipped, a line feed is an error, then an optional sign and at least one
  decimal digit are read, and whatever follows the digits is left alone. A number that
  does not fit 64 bits is an error. The white space characters are those of the table in
  \<^verbatim>\<open>fmt/scan.go\<close>, given here by their UTF-8 bytes.
\<close>

definition spacePrefix :: "string \<Rightarrow> nat" where
  "spacePrefix s =
     (if take 1 s \<in> {[CHR 0x09], [CHR 0x0B], [CHR 0x0C], [CHR 0x0D], [CHR 0x20]} then 1
      else if take 2 s \<in> {[CHR 0xC2, CHR 0x85], [CHR 0xC2, CHR 0xA0]} then 2
      else if take 3 s \<in> {[CHR 0xE1, CHR 0x9A, CHR 0x80], [CHR 0xE2, CHR 0x80, CHR 0xA8],
                            [CHR 0xE2, CHR 0x80, CHR 0xA9], [CHR 0xE2, CHR 0x80, CHR 0xAF],
                            [CHR 0xE2, CHR 0x81, CHR 0x9F], [CHR 0xE3, CHR 0x80, CHR 0x80]} then 3
      else if take 2 s = [CHR 0xE2, CHR 0x80] \<and> length s \<ge> 3 \<and>
              (of_char (s ! 2) :: nat) \<in> {0x80..0x8A} then 3
      else 0)"

fun skipSpace :: "nat \<Rightarrow> string \<Rightarrow> string option" where
  "skipSpace 0 s = Some s"
| "skipSpace (Suc k) s =
     (case s of
        [] \<Rightarrow> Some []
      | c # cs \<Rightarrow>
          if c = CHR 0x0A then None
          else if spacePrefix s = 0 then Some s
          else skipSpace k (drop (spacePrefix s) s))"

definition isDigit :: "char \<Rightarrow> bool" where
  "isDigit c = ((of_char c :: nat) \<in> {48..57})"

definition digitsValue :: "string \<Rightarrow> int" where
  "digitsValue ds = foldl (\<lambda>acc c. 10 * acc + (int (of_char c) - 48)) 0 ds"

definition Sscanf_d :: "string \<Rightarrow> int option" where
  "Sscanf_d s =
     (case skipSpace (length s) s of
        None \<Rightarrow> None
      | Some t \<Rightarrow>
          (let negative = (case t of c # _ \<Rightarrow> c = CHR ''-'' | [] \<Rightarrow> False);
               signed = (case t of c # _ \<Rightarrow> c = CHR ''-'' \<or> c = CHR ''+'' | [] \<Rightarrow> False);
               ds = takeWhile isDigit (if signed then tl t else t);
               v = (if negative then - digitsValue ds else digitsValue ds)
           in if ds = [] then None
              else if v < - (2 ^ 63) \<or> 2 ^ 63 \<le> v then None
              else Some v))"

text \<open>
  The part of \<^verbatim>\<open>main\<close> that settles the number of workers from \<^verbatim>\<open>os.Args\<close>: the number
  and what is printed while settling it.
\<close>

definition main_numWorkers :: "string list \<Rightarrow> int \<times> string list" where
  "main_numWorkers args =
     (if length args > 4 then
        (case Sscanf_d (args ! 4) of
           Some numWorkers \<Rightarrow> (numWorkers, [])
         | None \<Rightarrow>
             (5, [''Warning: Invalid number of workers '' @ [CHR 0x27] @ args ! 4 @ [CHR 0x27]
                    @ '', using default of 5'' @ [CHR 0x0A]]))
      else (5, []))"

section \<open>Notions used to state the properties of the audit\<close>

text \<open>
  The collection loop matches a result to a work item on name and version; the items the
  workers are probing at a given moment are those held by a worker.
\<close>

definition depKey :: "Dependency \<Rightarrow> string \<times> string" where
  "depKey dep = (dep_Name dep, dep_Version dep)"

definition resKey :: "AuditResult \<Rightarrow> string \<times> string" where
  "resKey result = (Name result, Version result)"

definition inFlight :: "Dependency option list \<Rightarrow> Dependency list" where
  "inFlight ws = map the (filter (\<lambda>w. w \<noteq> None) ws)"

definition depId :: "Dependency \<Rightarrow> string \<times> string \<times> string" where
  "depId dep = (dep_Name dep, dep_Version dep, dep_Type dep)"

definition resId :: "AuditResult \<Rightarrow> string \<times> string \<times> string" where
  "resId result = (Name result, Version result, Type result)"

text \<open>What every step of the pool preserves, for the work list \<open>deps\<close> and \<open>n\<close> workers.\<close>

definition poolInv :: "Dependency list \<Rightarrow> nat \<Rightarrow> pool \<Rightarrow> bool" where
  "poolInv deps n p =
     (probed p @ jobs p = deps \<and> length (workers p) = n \<and>
      mset (map resId (results p)) + mset (map depId (inFlight (workers p)))
        = mset (map depId (probed p)))"

section \<open>Properties of the key splitting and of the parser\<close>

lemma takeWhile_sep: "c \<notin> set a \<Longrightarrow> takeWhile (\<lambda>x. x \<noteq> c) (a @ c # b) = a"
  by (induction a) auto

lemma dropWhile_sep: "c \<notin> set a \<Longrightarrow> dropWhile (\<lambda>x. x \<noteq> c) (a @ c # b) = c # b"
  by (induction a) auto

lemma LastIndex_split: "c \<notin> set v \<Longrightarrow> strings_LastIndex (n @ c # v) c = int (length n)"
  using takeWhile_sep[of c "rev v" "rev n"] by (simp add: strings_LastIndex_def)

lemma LastIndex_none: "c \<notin> set s \<Longrightarrow> strings_LastIndex s c = - 1"
  by (simp add: strings_LastIndex_def)

lemma SplitN2_split: "c \<notin> set n \<Longrightarrow> strings_SplitN (n @ c # v) c 2 = [n, v]"
  by (simp add: strings_SplitN_def numeral_2_eq_2 takeWhile_sep dropWhile_sep)

lemma SplitN2_none: "c \<notin> set s \<Longrightarrow> strings_SplitN s c 2 = [s]"
  by (simp add: strings_SplitN_def numeral_2_eq_2)

lemma parsePackageKey_scoped: 
  assumes "n \<noteq> []" "hd n = CHR ''@''" "CHR ''@'' \<notin> set v"
  shows "parsePackageKey (n @ CHR ''@'' # v) = (n, v)"
proof -
  let ?k = "n @ CHR ''@'' # v"
  have p: "strings_HasPrefix ?k CHR ''@''"
    using assms by (cases n) (simp_all add: strings_HasPrefix_def)
  have i: "strings_LastIndex ?k CHR ''@'' = int (length n)"
    using assms by (simp add: LastIndex_split)
  have d: "nat (int (length n) + 1) = Suc (length n)" by simp
  have "0 < int (length n)" using assms by simp
  with p i show ?thesis
    by (simp add: parsePackageKey_def Let_def d)
qed

lemma parsePackageKey_scoped_no_version: "CHR ''@'' \<notin> set r \<Longrightarrow> parsePackageKey (CHR ''@'' # r) = ('''', '''')"
  using LastIndex_split[of "CHR ''@''" r "[]"] by (simp add: parsePackageKey_def strings_HasPrefix_def Let_def)

lemma parsePackageKey_unscoped: 
  assumes "n \<noteq> []" "CHR ''@'' \<notin> set n"
  shows "parsePackageKey (n @ CHR ''@'' # v) = (n, v)"
proof -
  let ?k = "n @ CHR ''@'' # v"
  have p: "\<not> strings_HasPrefix ?k CHR ''@''"
    using assms by (cases n) (auto simp add: strings_HasPrefix_def)
  have i: "strings_SplitN ?k CHR ''@'' 2 = [n, v]"
    using assms by (simp add: SplitN2_split)
  from p i show ?thesis
    by (simp add: parsePackageKey_def Let_def del: append.simps)
qed

lemma parsePackageKey_no_separator: "CHR ''@'' \<notin> set key \<Longrightarrow> parsePackageKey key = ('''', '''')"
  by (cases key) (auto simp add: parsePackageKey_def strings_HasPrefix_def SplitN2_none Let_def)

lemma processEntry_skip:
  "fst (parsePackageKey k) = [] \<or> snd (parsePackageKey k) = [] \<Longrightarrow> processEntry m (k, i) = m"
  by (auto simp add: processEntry_def split: prod.splits)

lemma processEntry_other:
  "fst (parsePackageKey (fst e)) \<noteq> n \<Longrightarrow> processEntry m e n = m n"
  by (cases e) (auto simp add: processEntry_def split: prod.splits)

lemma processEntry_record:
  "fst (parsePackageKey k) \<noteq> [] \<Longrightarrow> snd (parsePackageKey k) \<noteq> [] \<Longrightarrow>
   processEntry m (k, i) (fst (parsePackageKey k)) =
     Some \<lparr> pkg_Version = snd (parsePackageKey k), pkg_Type = ''package'',
            pkg_Resolution = asStringMap (i ''resolution''),
            pkg_Engines = asStringMap (i ''engines'') \<rparr>"
  by (auto simp add: processEntry_def split: prod.splits)

lemma foldl_processEntry_other:
  "\<forall>e\<in>set es. fst (parsePackageKey (fst e)) \<noteq> n \<Longrightarrow> foldl processEntry m es n = m n"
  by (induction es arbitrary: m) (simp_all add: processEntry_other)




lemmas parsePackageKey_eval = parsePackageKey_def strings_HasPrefix_def strings_LastIndex_def
  strings_SplitN_def Let_def numeral_2_eq_2

text \<open>
  Claim C3. A lock key that begins with \<open>@\<close> is cut at its last \<open>@\<close>: what stands before
  is the name, what stands after is the version. Any other key is cut at its first \<open>@\<close>.
  A key that cannot be cut this way yields the empty pair. When the parser meets a key
  whose name or version comes out empty, it returns a tree all the same, and the tree is
  the one it returns for the document without that entry; a key that can be cut is
  recorded under its name with its version, unless a later entry takes the same name.
\<close>

theorem key_split_and_lenient_skip:
  "(n \<noteq> [] \<and> hd n = CHR ''@'' \<and> CHR ''@'' \<notin> set v \<longrightarrow>
      parsePackageKey (n @ CHR ''@'' # v) = (n, v))
   \<and> (u \<noteq> [] \<and> CHR ''@'' \<notin> set u \<longrightarrow>
      parsePackageKey (u @ CHR ''@'' # w) = (u, w))
   \<and> (CHR ''@'' \<notin> set r \<longrightarrow>
      parsePackageKey (CHR ''@'' # r) = ('''', '''') \<and> parsePackageKey r = ('''', ''''))
   \<and> (fs path = Content data \<and> yaml data = Inr (es1 @ (k, info) # es2) \<longrightarrow>
      (\<exists>t. parsePnpmLock yaml fs path = Inr t \<and>
         (fst (parsePackageKey k) = [] \<or> snd (parsePackageKey k) = [] \<longrightarrow>
            parsePnpmLock (\<lambda>_. Inr (es1 @ es2)) fs path = Inr t) \<and>
         (fst (parsePackageKey k) \<noteq> [] \<and> snd (parsePackageKey k) \<noteq> [] \<and>
          (\<forall>e\<in>set es2. fst (parsePackageKey (fst e)) \<noteq> fst (parsePackageKey k)) \<longrightarrow>
            Packages t (fst (parsePackageKey k)) =
              Some \<lparr> pkg_Version = snd (parsePackageKey k), pkg_Type = ''package'',
                     pkg_Resolution = asStringMap (info ''resolution''),
                     pkg_Engines = asStringMap (info ''engines'') \<rparr>)))"
proof (intro conjI impI)
  assume "n \<noteq> [] \<and> hd n = CHR ''@'' \<and> CHR ''@'' \<notin> set v"
  then show "parsePackageKey (n @ CHR ''@'' # v) = (n, v)"
    by (simp add: parsePackageKey_scoped)
next
  assume "u \<noteq> [] \<and> CHR ''@'' \<notin> set u"
  then show "parsePackageKey (u @ CHR ''@'' # w) = (u, w)"
    by (simp add: parsePackageKey_unscoped)
next
  assume "CHR ''@'' \<notin> set r"
  then show "parsePackageKey (CHR ''@'' # r) = ('''', '''')"
    by (rule parsePackageKey_scoped_no_version)
next
  assume "CHR ''@'' \<notin> set r"
  then show "parsePackageKey r = ('''', '''')"
    by (rule parsePackageKey_no_separator)
next
  assume a: "fs path = Content data \<and> yaml data = Inr (es1 @ (k, info) # es2)"
  let ?t = "\<lparr> Packages = foldl processEntry Map.empty (es1 @ (k, info) # es2) \<rparr>"
  have r: "parsePnpmLock yaml fs path = Inr ?t"
    using a by (simp add: parsePnpmLock_def)
  have s: "parsePnpmLock (\<lambda>_. Inr (es1 @ es2)) fs path = Inr ?t"
    if "fst (parsePackageKey k) = [] \<or> snd (parsePackageKey k) = []"
    using a that by (simp add: parsePnpmLock_def processEntry_skip)
  have w: "Packages ?t (fst (parsePackageKey k)) =
             Some \<lparr> pkg_Version = snd (parsePackageKey k), pkg_Type = ''package'',
                    pkg_Resolution = asStringMap (info ''resolution''),
                    pkg_Engines = asStringMap (info ''engines'') \<rparr>"
    if "fst (parsePackageKey k) \<noteq> [] \<and> snd (parsePackageKey k) \<noteq> [] \<and>
        (\<forall>e\<in>set es2. fst (parsePackageKey (fst e)) \<noteq> fst (parsePackageKey k))"
    using that by (simp add: foldl_processEntry_other processEntry_record)
  from r s w show "\<exists>t. parsePnpmLock yaml fs path = Inr t \<and>
         (fst (parsePackageKey k) = [] \<or> snd (parsePackageKey k) = [] \<longrightarrow>
            parsePnpmLock (\<lambda>_. Inr (es1 @ es2)) fs path = Inr t) \<and>
         (fst (parsePackageKey k) \<noteq> [] \<and> snd (parsePackageKey k) \<noteq> [] \<and>
          (\<forall>e\<in>set es2. fst (parsePackageKey (fst e)) \<noteq> fst (parsePackageKey k)) \<longrightarrow>
            Packages t (fst (parsePackageKey k)) =
              Some \<lparr> pkg_Version = snd (parsePackageKey k), pkg_Type = ''package'',
                     pkg_Resolution = asStringMap (info ''resolution''),
                     pkg_Engines = asStringMap (info ''engines'') \<rparr>)"
    by blast
qed

theorem key_split_and_lenient_skip_witness:
  "parsePackageKey ''@cypress/listr-verbose-renderer@0.4.1'' = (''@cypress/listr-verbose-renderer'', ''0.4.1'')
   \<and> parsePackageKey ''abbrev@1.1.1'' = (''abbrev'', ''1.1.1'')
   \<and> parsePackageKey ''@scope/name'' = ('''', '''')
   \<and> parsePackageKey ''broken'' = ('''', '''')
   \<and> parsePnpmLock (\<lambda>_. Inr [(''a@1'', Map.empty), (''b@2'', Map.empty)]) (\<lambda>_. Content ''doc'') ''lock''
       = parsePnpmLock (\<lambda>_. Inr [(''a@1'', Map.empty), (''broken'', Map.empty), (''b@2'', Map.empty)]) (\<lambda>_. Content ''doc'') ''lock''
   \<and> (\<exists>t. parsePnpmLock (\<lambda>_. Inr [(''a@1'', Map.empty), (''@s/c@3'', [''engines'' \<mapsto> IMap [(''node'', IScalar ''>=8'')]]), (''b@2'', Map.empty)])
             (\<lambda>_. Content ''doc'') ''lock'' = Inr t
          \<and> Packages t ''@s/c'' = Some \<lparr> pkg_Version = ''3'', pkg_Type = ''package'', pkg_Resolution = None,
                 pkg_Engines = Some [(''node'', IScalar ''>=8'')] \<rparr>)"
  using key_split_and_lenient_skip
          [of "''@cypress/listr-verbose-renderer''" "''0.4.1''" "''abbrev''" "''1.1.1''" "''scope/name''"
              "\<lambda>_. Content ''doc''" "''lock''" "''doc''"
              "\<lambda>_. Inr [(''a@1'', Map.empty), (''broken'', Map.empty), (''b@2'', Map.empty)]"
              "[(''a@1'', Map.empty)]" "''broken''" "Map.empty" "[(''b@2'', Map.empty)]"]
        key_split_and_lenient_skip
          [of "''@cypress/listr-verbose-renderer''" "''0.4.1''" "''abbrev''" "''1.1.1''" "''broken''"
              "\<lambda>_. Content ''doc''" "''lock''" "''doc''"
              "\<lambda>_. Inr [(''a@1'', Map.empty), (''@s/c@3'', [''engines'' \<mapsto> IMap [(''node'', IScalar ''>=8'')]]), (''b@2'', Map.empty)]"
              "[(''a@1'', Map.empty)]" "''@s/c@3''" "[''engines'' \<mapsto> IMap [(''node'', IScalar ''>=8'')]]" "[(''b@2'', Map.empty)]"]
  by (auto simp add: parsePackageKey_eval)




section \<open>Properties of the prober\<close>

lemma genSplit_no_sep: "sep \<notin> set s \<Longrightarrow> genSplit k sep s = [s]"
  by (cases k) simp_all

lemma genSplit_last_segment:
  "sep \<notin> set seg \<Longrightarrow> length (filter (\<lambda>c. c = sep) pre) < k \<Longrightarrow>
   last (genSplit k sep (pre @ sep # seg)) = seg \<and> 2 \<le> length (genSplit k sep (pre @ sep # seg))"
proof (induction k arbitrary: pre)
  case 0
  then show ?case by simp
next
  case (Suc k)
  show ?case
  proof (cases "sep \<in> set pre")
    case True
    then obtain a b where pre: "pre = a @ sep # b" and a: "sep \<notin> set a"
      by (auto dest: split_list_first)
    from Suc.prems(2) pre have "length (filter (\<lambda>c. c = sep) b) < k" by simp
    from Suc.IH[OF Suc.prems(1) this]
    have ih: "last (genSplit k sep (b @ sep # seg)) = seg" "2 \<le> length (genSplit k sep (b @ sep # seg))"
      by simp_all
    then have ne: "genSplit k sep (b @ sep # seg) \<noteq> []" by auto
    have tw: "takeWhile (\<lambda>c. c \<noteq> sep) (pre @ sep # seg) = a"
      using takeWhile_sep[OF a, of "b @ sep # seg"] by (simp add: pre)
    have dw: "dropWhile (\<lambda>c. c \<noteq> sep) (pre @ sep # seg) = sep # b @ sep # seg"
      using dropWhile_sep[OF a, of "b @ sep # seg"] by (simp add: pre)
    show ?thesis using ih ne by (simp add: tw dw)
  next
    case False
    have tw: "takeWhile (\<lambda>c. c \<noteq> sep) (pre @ sep # seg) = pre"
      by (rule takeWhile_sep[OF False])
    have dw: "dropWhile (\<lambda>c. c \<noteq> sep) (pre @ sep # seg) = sep # seg"
      by (rule dropWhile_sep[OF False])
    show ?thesis using Suc.prems(1) by (simp add: tw dw genSplit_no_sep)
  qed
qed

lemma strings_Split_last_segment:
  assumes "sep \<notin> set seg"
  shows "last (strings_Split (pre @ sep # seg) sep) = seg"
    and "2 \<le> length (strings_Split (pre @ sep # seg) sep)"
proof -
  have "length (filter (\<lambda>c. c = sep) pre) < length (pre @ sep # seg)"
    using length_filter_le[of "\<lambda>c. c = sep" pre] by (simp add: less_Suc_eq_le trans_le_add1)
  from genSplit_last_segment[OF assms this]
  show "last (strings_Split (pre @ sep # seg) sep) = seg"
    and "2 \<le> length (strings_Split (pre @ sep # seg) sep)"
    by (simp_all add: strings_Split_def strings_SplitN_def)
qed

lemma strings_Split_no_sep: "sep \<notin> set s \<Longrightarrow> strings_Split s sep = [s]"
  by (simp add: strings_Split_def strings_SplitN_def genSplit_no_sep)

lemma packageURL_scoped:
  assumes "strings_HasPrefix (pre @ CHR ''/'' # seg) CHR ''@''" and "CHR ''/'' \<notin> set seg"
  shows "packageURL (pre @ CHR ''/'' # seg) v base =
           Some (base @ ''/'' @ (pre @ CHR ''/'' # seg) @ ''/-/'' @ seg @ ''-'' @ v @ ''.tgz'')"
proof -
  let ?parts = "strings_Split (pre @ CHR ''/'' # seg) CHR ''/''"
  have l: "2 \<le> length ?parts" and s: "last ?parts = seg"
    using strings_Split_last_segment[OF assms(2)] by simp_all
  from l have "?parts \<noteq> []" by auto
  then have "?parts ! (length ?parts - 1) = seg"
    using s by (simp add: last_conv_nth)
  with assms(1) l show ?thesis
    by (simp add: packageURL_def Let_def del: append.simps)
qed

lemma packageURL_unscoped:
  "\<not> strings_HasPrefix n CHR ''@'' \<Longrightarrow>
   packageURL n v base = Some (base @ ''/'' @ n @ ''/-/'' @ n @ ''-'' @ v @ ''.tgz'')"
  by (simp add: packageURL_def)

lemma packageURL_malformed:
  "strings_HasPrefix n CHR ''@'' \<Longrightarrow> CHR ''/'' \<notin> set n \<Longrightarrow> packageURL n v base = None"
  by (simp add: packageURL_def strings_Split_no_sep)

lemma checkNpmRegistry_requests:
  "\<forall>req\<in>set (snd (checkNpmRegistry net n v t base tok)). packageURL n v base = Some (req_URL req)"
  by (simp add: checkNpmRegistry_def Let_def split: option.splits http_reply.splits)

lemma checkNpmRegistry_identity:
  "Name (fst (checkNpmRegistry net n v t base tok)) = n
   \<and> Version (fst (checkNpmRegistry net n v t base tok)) = v
   \<and> Type (fst (checkNpmRegistry net n v t base tok)) = t"
  by (simp add: checkNpmRegistry_def Let_def split: option.splits http_reply.splits)

text \<open>
  Claim C10. Whatever path the prober takes (a malformed scoped name, a request that
  cannot be built, a transport failure, or a response with any status code), the result
  carries the name, the version and the type it was called with.
\<close>

theorem prober_keeps_name_version_type:
  "Name (fst (checkNpmRegistry net n v t base tok)) = n
   \<and> Version (fst (checkNpmRegistry net n v t base tok)) = v
   \<and> Type (fst (checkNpmRegistry net n v t base tok)) = t"
  by (simp add: checkNpmRegistry_def Let_def split: option.splits http_reply.splits)





text \<open>
  Claim C6. For a name that begins with \<open>@\<close> and has a slash, the URL is the base, the
  name, \<open>/-/\<close>, what follows the last slash of the name, a dash, the version and
  \<open>.tgz\<close>; for a name that does not begin with \<open>@\<close> the whole name stands in that
  place. A name that begins with \<open>@\<close> and has no slash gives the result for a malformed
  scoped name, and no request is sent. Every request that the prober does send goes to
  the URL so built.
\<close>

theorem probe_url_construction:
  "(strings_HasPrefix (pre @ CHR ''/'' # seg) CHR ''@'' \<and> CHR ''/'' \<notin> set seg \<longrightarrow>
      packageURL (pre @ CHR ''/'' # seg) v base =
        Some (base @ ''/'' @ (pre @ CHR ''/'' # seg) @ ''/-/'' @ seg @ ''-'' @ v @ ''.tgz''))
   \<and> (\<not> strings_HasPrefix n CHR ''@'' \<longrightarrow>
      packageURL n v base = Some (base @ ''/'' @ n @ ''/-/'' @ n @ ''-'' @ v @ ''.tgz''))
   \<and> (strings_HasPrefix m CHR ''@'' \<and> CHR ''/'' \<notin> set m \<longrightarrow>
      checkNpmRegistry net m v t base tok =
        (\<lparr> Index = 0, Name = m, Version = v, Type = t, Status = statusInvalidScoped,
           StatusCode = 0, Error = Some ''invalid scoped package format'' \<rparr>, []))
   \<and> (\<forall>req\<in>set (snd (checkNpmRegistry net p v t base tok)).
        packageURL p v base = Some (req_URL req))"
proof (intro conjI impI)
  assume "strings_HasPrefix (pre @ CHR ''/'' # seg) CHR ''@'' \<and> CHR ''/'' \<notin> set seg"
  then show "packageURL (pre @ CHR ''/'' # seg) v base =
        Some (base @ ''/'' @ (pre @ CHR ''/'' # seg) @ ''/-/'' @ seg @ ''-'' @ v @ ''.tgz'')"
    using packageURL_scoped[of pre seg v base] by blast
next
  assume "\<not> strings_HasPrefix n CHR ''@''"
  then show "packageURL n v base = Some (base @ ''/'' @ n @ ''/-/'' @ n @ ''-'' @ v @ ''.tgz'')"
    by (rule packageURL_unscoped)
next
  assume "strings_HasPrefix m CHR ''@'' \<and> CHR ''/'' \<notin> set m"
  then have "packageURL m v base = None" by (simp add: packageURL_malformed)
  then show "checkNpmRegistry net m v t base tok =
        (\<lparr> Index = 0, Name = m, Version = v, Type = t, Status = statusInvalidScoped,
           StatusCode = 0, Error = Some ''invalid scoped package format'' \<rparr>, [])"
    by (simp add: checkNpmRegistry_def)
next
  show "\<forall>req\<in>set (snd (checkNpmRegistry net p v t base tok)).
        packageURL p v base = Some (req_URL req)"
    by (rule checkNpmRegistry_requests)
qed

theorem probe_url_construction_witness:
  "packageURL ''@scope/pkg'' ''1.0.0'' ''https://registry.npmjs.org''
     = Some ''https://registry.npmjs.org/@scope/pkg/-/pkg-1.0.0.tgz''
   \<and> packageURL ''left-pad'' ''1.0.0'' ''https://registry.npmjs.org''
     = Some ''https://registry.npmjs.org/left-pad/-/left-pad-1.0.0.tgz''
   \<and> checkNpmRegistry \<lparr> newRequest = (\<lambda>_. None), clientDo = (\<lambda>_. Response 200) \<rparr>
        ''@scope'' ''1.0.0'' ''package'' ''https://registry.npmjs.org'' ''''
     = (\<lparr> Index = 0, Name = ''@scope'', Version = ''1.0.0'', Type = ''package'',
          Status = statusInvalidScoped, StatusCode = 0,
          Error = Some ''invalid scoped package format'' \<rparr>, [])
   \<and> checkNpmRegistry \<lparr> newRequest = (\<lambda>_. None), clientDo = (\<lambda>_. Response 200) \<rparr>
        ''@scope/pkg'' ''1.0.0'' ''package'' ''https://registry.npmjs.org'' ''''
     = (\<lparr> Index = 0, Name = ''@scope/pkg'', Version = ''1.0.0'', Type = ''package'',
          Status = statusAvailable, StatusCode = 200, Error = None \<rparr>,
        [\<lparr> req_URL = ''https://registry.npmjs.org/@scope/pkg/-/pkg-1.0.0.tgz'',
            req_Authorization = None \<rparr>])"
proof -
  have e: "checkNpmRegistry \<lparr> newRequest = (\<lambda>_. None), clientDo = (\<lambda>_. Response 200) \<rparr>
        ''@scope/pkg'' ''1.0.0'' ''package'' ''https://registry.npmjs.org'' ''''
     = (\<lparr> Index = 0, Name = ''@scope/pkg'', Version = ''1.0.0'', Type = ''package'',
          Status = statusAvailable, StatusCode = 200, Error = None \<rparr>,
        [\<lparr> req_URL = ''https://registry.npmjs.org/@scope/pkg/-/pkg-1.0.0.tgz'',
            req_Authorization = None \<rparr>])"
    by (simp add: checkNpmRegistry_def packageURL_def strings_HasPrefix_def strings_Split_def
          strings_SplitN_def Let_def)
  from probe_url_construction
         [of "''@scope''" "''pkg''" "''1.0.0''" "''https://registry.npmjs.org''" "''left-pad''"
             "''@scope''" "\<lparr> newRequest = (\<lambda>_. None), clientDo = (\<lambda>_. Response 200) \<rparr>"
             "''package''" "''''" "''@scope/pkg''"] e
  show ?thesis by (simp add: strings_HasPrefix_def)
qed

section \<open>Properties of the enumerator\<close>

lemma sort_distinct_enumeration:
  assumes "distinct ks" and "set ks = A"
  shows "sort ks = sorted_list_of_set A"
proof -
  have "sorted_list_of_set (set ks) = sort (remdups ks)"
    by (rule sorted_list_of_set_sort_remdups)
  with assms show ?thesis by (simp add: distinct_remdups_id)
qed

lemma strict_sorted_rank:
  assumes "sorted_wrt (<) (xs :: 'a :: linorder list)" and "i < length xs"
  shows "card {y \<in> set xs. y < xs ! i} = i"
proof -
  have d: "distinct xs" using assms(1) strict_sorted_iff by blast
  have "{y \<in> set xs. y < xs ! i} = set (take i xs)"
  proof (intro set_eqI iffI)
    fix y assume "y \<in> {y \<in> set xs. y < xs ! i}"
    then obtain j where j: "j < length xs" "y = xs ! j" and lt: "y < xs ! i"
      by (auto simp add: in_set_conv_nth)
    have "j < i"
    proof (rule ccontr)
      assume "\<not> j < i"
      then have "i \<le> j" by simp
      then have "xs ! i \<le> xs ! j"
        using assms(1) j(1) by (cases "i = j") (auto simp add: sorted_wrt_iff_nth_less less_imp_le)
      with lt j(2) show False by simp
    qed
    with j assms(2) show "y \<in> set (take i xs)"
      by (auto simp add: in_set_conv_nth)
  next
    fix y assume "y \<in> set (take i xs)"
    then obtain j where j: "j < i" "y = xs ! j"
      using assms(2) by (auto simp add: in_set_conv_nth)
    with assms show "y \<in> {y \<in> set xs. y < xs ! i}"
      by (auto simp add: sorted_wrt_iff_nth_less)
  qed
  moreover have "card (set (take i xs)) = i"
    using d assms(2) by (simp add: distinct_card)
  ultimately show ?thesis by simp
qed

lemma fetchDependenciesFromTree_names:
  "map dep_Name (fetchDependenciesFromTree t ks) = sort ks"
  by (simp add: fetchDependenciesFromTree_def comp_def map_idI split: option.splits)

lemma fetchDependenciesFromTree_nth:
  assumes "i < length ks"
  shows "fetchDependenciesFromTree t ks ! i =
           (case Packages t (sort ks ! i) of
              Some info \<Rightarrow> \<lparr> dep_Name = sort ks ! i, dep_Version = pkg_Version info,
                              dep_Type = pkg_Type info \<rparr>
            | None \<Rightarrow> \<lparr> dep_Name = sort ks ! i, dep_Version = '''', dep_Type = '''' \<rparr>)"
  using assms by (simp add: fetchDependenciesFromTree_def)

text \<open>
  Claim C8. Let \<open>ks\<close> and \<open>ks'\<close> be two orders in which the runtime may range over the
  keys of the same tree. The work list has one item per record of the tree; its names are
  the keys in strictly ascending order; the item at position \<open>i\<close> carries the version and
  the type of its record, and exactly \<open>i\<close> keys of the tree are below its name; and the
  work list does not depend on the order in which the keys were handed out.
\<close>

theorem enumerator_sorted_and_repeatable:
  assumes "distinct ks" and "set ks = dom (Packages t)"
    and "distinct ks'" and "set ks' = dom (Packages t)"
  shows "length (fetchDependenciesFromTree t ks) = card (dom (Packages t))
    \<and> map dep_Name (fetchDependenciesFromTree t ks) = sorted_list_of_set (dom (Packages t))
    \<and> sorted_wrt (<) (map dep_Name (fetchDependenciesFromTree t ks))
    \<and> (\<forall>i < length (fetchDependenciesFromTree t ks).
          (\<exists>info. Packages t (dep_Name (fetchDependenciesFromTree t ks ! i)) = Some info
             \<and> dep_Version (fetchDependenciesFromTree t ks ! i) = pkg_Version info
             \<and> dep_Type (fetchDependenciesFromTree t ks ! i) = pkg_Type info)
          \<and> card {n \<in> dom (Packages t). n < dep_Name (fetchDependenciesFromTree t ks ! i)} = i)
    \<and> fetchDependenciesFromTree t ks' = fetchDependenciesFromTree t ks"
proof -
  let ?ds = "fetchDependenciesFromTree t ks"
  have fin: "finite (dom (Packages t))" using assms(2) by (metis List.finite_set)
  have s: "sort ks = sorted_list_of_set (dom (Packages t))"
    by (rule sort_distinct_enumeration[OF assms(1,2)])
  have s': "sort ks' = sorted_list_of_set (dom (Packages t))"
    by (rule sort_distinct_enumeration[OF assms(3,4)])
  have len: "length ?ds = card (dom (Packages t))"
    using assms(1,2) by (simp add: fetchDependenciesFromTree_def distinct_card[symmetric])
  have names: "map dep_Name ?ds = sorted_list_of_set (dom (Packages t))"
    by (simp add: fetchDependenciesFromTree_names s)
  have strict: "sorted_wrt (<) (map dep_Name ?ds)"
    by (simp add: names)
  have items: "(\<exists>info. Packages t (dep_Name (?ds ! i)) = Some info
             \<and> dep_Version (?ds ! i) = pkg_Version info \<and> dep_Type (?ds ! i) = pkg_Type info)
          \<and> card {n \<in> dom (Packages t). n < dep_Name (?ds ! i)} = i" if i: "i < length ?ds" for i
  proof -
    from i have ik: "i < length ks" by (simp add: fetchDependenciesFromTree_def)
    then have "sort ks ! i \<in> set (sort ks)" by (simp del: set_sort)
    then have "sort ks ! i \<in> dom (Packages t)" using assms(2) by simp
    then obtain info where info: "Packages t (sort ks ! i) = Some info" by auto
    have nm: "dep_Name (?ds ! i) = map dep_Name ?ds ! i" using i by simp
    have rank: "card {y \<in> set (map dep_Name ?ds). y < map dep_Name ?ds ! i} = i"
      by (rule strict_sorted_rank[OF strict]) (simp add: i)
    have "set (map dep_Name ?ds) = dom (Packages t)"
      using fin by (simp add: names)
    with rank nm have "card {n \<in> dom (Packages t). n < dep_Name (?ds ! i)} = i" by simp
    moreover have "Packages t (dep_Name (?ds ! i)) = Some info
        \<and> dep_Version (?ds ! i) = pkg_Version info \<and> dep_Type (?ds ! i) = pkg_Type info"
      using info by (simp add: fetchDependenciesFromTree_nth[OF ik])
    ultimately show ?thesis by blast
  qed
  have same: "fetchDependenciesFromTree t ks' = ?ds"
    by (simp add: fetchDependenciesFromTree_def s s')
  from len names strict items same show ?thesis by blast
qed

theorem enumerator_sorted_and_repeatable_witness:
  "fetchDependenciesFromTree
     \<lparr> Packages = [''b'' \<mapsto> \<lparr> pkg_Version = ''2'', pkg_Type = ''package'', pkg_Resolution = None, pkg_Engines = None \<rparr>,
                   ''@x/y'' \<mapsto> \<lparr> pkg_Version = ''3'', pkg_Type = ''package'', pkg_Resolution = None, pkg_Engines = None \<rparr>,
                   ''a'' \<mapsto> \<lparr> pkg_Version = ''1'', pkg_Type = ''package'', pkg_Resolution = None, pkg_Engines = None \<rparr>] \<rparr>
     [''b'', ''@x/y'', ''a'']
   = [\<lparr> dep_Name = ''@x/y'', dep_Version = ''3'', dep_Type = ''package'' \<rparr>,
      \<lparr> dep_Name = ''a'', dep_Version = ''1'', dep_Type = ''package'' \<rparr>,
      \<lparr> dep_Name = ''b'', dep_Version = ''2'', dep_Type = ''package'' \<rparr>]
   \<and> fetchDependenciesFromTree
     \<lparr> Packages = [''b'' \<mapsto> \<lparr> pkg_Version = ''2'', pkg_Type = ''package'', pkg_Resolution = None, pkg_Engines = None \<rparr>,
                   ''@x/y'' \<mapsto> \<lparr> pkg_Version = ''3'', pkg_Type = ''package'', pkg_Resolution = None, pkg_Engines = None \<rparr>,
                   ''a'' \<mapsto> \<lparr> pkg_Version = ''1'', pkg_Type = ''package'', pkg_Resolution = None, pkg_Engines = None \<rparr>] \<rparr>
     [''a'', ''b'', ''@x/y'']
   = fetchDependenciesFromTree
     \<lparr> Packages = [''b'' \<mapsto> \<lparr> pkg_Version = ''2'', pkg_Type = ''package'', pkg_Resolution = None, pkg_Engines = None \<rparr>,
                   ''@x/y'' \<mapsto> \<lparr> pkg_Version = ''3'', pkg_Type = ''package'', pkg_Resolution = None, pkg_Engines = None \<rparr>,
                   ''a'' \<mapsto> \<lparr> pkg_Version = ''1'', pkg_Type = ''package'', pkg_Resolution = None, pkg_Engines = None \<rparr>] \<rparr>
     [''b'', ''@x/y'', ''a'']
   \<and> sorted_list_of_set {''b'', ''@x/y'', ''a''} = [''@x/y'', ''a'', ''b'']"
proof -
  let ?t = "\<lparr> Packages = [''b'' \<mapsto> \<lparr> pkg_Version = ''2'', pkg_Type = ''package'', pkg_Resolution = None, pkg_Engines = None \<rparr>,
                   ''@x/y'' \<mapsto> \<lparr> pkg_Version = ''3'', pkg_Type = ''package'', pkg_Resolution = None, pkg_Engines = None \<rparr>,
                   ''a'' \<mapsto> \<lparr> pkg_Version = ''1'', pkg_Type = ''package'', pkg_Resolution = None, pkg_Engines = None \<rparr>] \<rparr>"
  have d1: "distinct [''b'', ''@x/y'', ''a'']" by simp
  have d2: "distinct [''a'', ''b'', ''@x/y'']" by simp
  have k1: "set [''b'', ''@x/y'', ''a''] = dom (Packages ?t)" by auto
  have k2: "set [''a'', ''b'', ''@x/y''] = dom (Packages ?t)" by auto
  have e: "fetchDependenciesFromTree ?t [''b'', ''@x/y'', ''a'']
     = [\<lparr> dep_Name = ''@x/y'', dep_Version = ''3'', dep_Type = ''package'' \<rparr>,
        \<lparr> dep_Name = ''a'', dep_Version = ''1'', dep_Type = ''package'' \<rparr>,
        \<lparr> dep_Name = ''b'', dep_Version = ''2'', dep_Type = ''package'' \<rparr>]"
    by (simp add: fetchDependenciesFromTree_def)
  have dm: "dom (Packages ?t) = {''b'', ''@x/y'', ''a''}" by auto
  from enumerator_sorted_and_repeatable[OF d1 k1 d2 k2] e
  show ?thesis by (simp add: dm)
qed

section \<open>Properties of the concurrent audit\<close>

subsection \<open>The pool\<close>

lemma inFlight_take:
  "w < length ws \<Longrightarrow> ws ! w = None \<Longrightarrow>
   mset (inFlight (ws[w := Some d])) = add_mset d (mset (inFlight ws))"
proof (induction ws arbitrary: w)
  case Nil
  then show ?case by simp
next
  case (Cons a ws)
  then show ?case by (cases w) (simp_all add: inFlight_def)
qed

lemma inFlight_finish:
  "w < length ws \<Longrightarrow> ws ! w = Some d \<Longrightarrow>
   add_mset d (mset (inFlight (ws[w := None]))) = mset (inFlight ws)"
proof (induction ws arbitrary: w)
  case Nil
  then show ?case by simp
next
  case (Cons a ws)
  then show ?case by (cases w) (simp_all add: inFlight_def)
qed

lemma inFlight_empty_iff: "inFlight ws = [] \<longleftrightarrow> list_all (\<lambda>w. w = None) ws"
  by (induction ws) (simp_all add: inFlight_def)

lemma checkNpmRegistry_resId:
  "resId (fst (checkNpmRegistry net (dep_Name d) (dep_Version d) (dep_Type d) base tok)) = depId d"
  by (simp add: resId_def depId_def checkNpmRegistry_identity)

lemma poolInv_start: "poolInv deps (nat numWorkers) (startPool deps numWorkers)"
  by (simp add: poolInv_def startPool_def inFlight_def)

lemma poolInv_exec:
  assumes "poolInv deps n p" and "exec base tok e p = Some p'"
  shows "poolInv deps n p'"
proof (cases e)
  case (Take w)
  with assms(2) obtain d rest where j: "jobs p = d # rest" and w: "w < length (workers p)"
    "workers p ! w = None"
    and p': "p' = p\<lparr> jobs := rest, workers := (workers p)[w := Some d], probed := probed p @ [d] \<rparr>"
    by (auto split: list.splits if_splits)
  from assms(1) j p' inFlight_take[OF w, of d] show ?thesis
    by (simp add: poolInv_def)
next
  case (Finish w net)
  with assms(2) obtain d where w: "w < length (workers p)" "workers p ! w = Some d"
    and p': "p' = p\<lparr> workers := (workers p)[w := None],
                      results := results p @
                        [fst (checkNpmRegistry net (dep_Name d) (dep_Version d) (dep_Type d) base tok)] \<rparr>"
    by (auto split: option.splits if_splits)
  from assms(1) p' inFlight_finish[OF w, symmetric] show ?thesis
    by (simp add: poolInv_def checkNpmRegistry_resId)
qed

lemma poolInv_run:
  "poolInv deps n p \<Longrightarrow> run base tok sched p = Some p' \<Longrightarrow> poolInv deps n p'"
proof (induction sched arbitrary: p)
  case Nil
  then show ?case by simp
next
  case (Cons e es)
  then show ?case by (auto split: option.splits dest: poolInv_exec)
qed

lemma exec_counts:
  assumes "exec base tok e p = Some p'"
  shows "length (probed p') + length (results p') = Suc (length (probed p) + length (results p))"
proof (cases e)
  case (Take w)
  with assms show ?thesis by (auto split: list.splits if_splits)
next
  case (Finish w net)
  with assms show ?thesis by (auto split: option.splits if_splits)
qed

lemma run_counts:
  "run base tok sched p = Some p' \<Longrightarrow>
   length (probed p') + length (results p') = length sched + (length (probed p) + length (results p))"
proof (induction sched arbitrary: p)
  case Nil
  then show ?case by simp
next
  case (Cons e es)
  then show ?case by (auto split: option.splits dest: exec_counts)
qed

lemma poolInv_sizes:
  assumes "poolInv deps n p"
  shows "length (results p) + length (inFlight (workers p)) = length (probed p)"
    and "length (probed p) + length (jobs p) = length deps"
proof -
  from assms have "size (mset (map resId (results p)) + mset (map depId (inFlight (workers p))))
      = size (mset (map depId (probed p)))"
    by (simp only: poolInv_def)
  then show "length (results p) + length (inFlight (workers p)) = length (probed p)" by simp
  from assms have "length (probed p @ jobs p) = length deps" by (simp only: poolInv_def)
  then show "length (probed p) + length (jobs p) = length deps" by simp
qed

lemma pool_progress:
  assumes "workers p \<noteq> []" and "\<not> closed p"
  shows "\<exists>e p'. exec base tok e p = Some p'"
proof (cases "list_all (\<lambda>w. w = None) (workers p)")
  case True
  with assms obtain d rest where j: "jobs p = d # rest"
    by (cases "jobs p") (auto simp add: closed_def)
  from True assms(1) have "0 < length (workers p)" "workers p ! 0 = None"
    by (cases "workers p"; simp)+
  with j have "exec base tok (Take 0) p \<noteq> None" by simp
  then show ?thesis by blast
next
  case False
  then obtain w d where "w < length (workers p)" "workers p ! w = Some d"
    by (auto simp add: list_all_length)
  then have "exec base tok (Finish w \<lparr> newRequest = (\<lambda>_. None), clientDo = (\<lambda>_. Response 200) \<rparr>) p \<noteq> None" by simp
  then show ?thesis by blast
qed

subsection \<open>The collection loop\<close>

lemma findIndex_Some:
  "findIndex deps r k = Some i \<Longrightarrow>
   k \<le> i \<and> i - k < length deps \<and> depKey (deps ! (i - k)) = resKey r"
proof (induction deps arbitrary: k)
  case Nil
  then show ?case by simp
next
  case (Cons d deps)
  show ?case
  proof (cases "dep_Name d = Name r \<and> dep_Version d = Version r")
    case True
    with Cons.prems show ?thesis by (simp add: depKey_def resKey_def)
  next
    case False
    with Cons.prems have "findIndex deps r (Suc k) = Some i" by simp
    from Cons.IH[OF this] show ?thesis by (auto simp add: Suc_diff_Suc less_Suc_eq_le le_Suc_eq)
  qed
qed

lemma findIndex_None:
  "findIndex deps r k = None \<Longrightarrow> resKey r \<notin> set (map depKey deps)"
  by (induction deps arbitrary: k) (auto simp add: depKey_def resKey_def split: if_splits)

lemma findIndex_distinct:
  "distinct (map depKey deps) \<Longrightarrow> j < length deps \<Longrightarrow> depKey (deps ! j) = resKey r \<Longrightarrow>
   findIndex deps r k = Some (k + j)"
proof (induction deps arbitrary: k j)
  case Nil
  then show ?case by simp
next
  case (Cons d deps)
  show ?case
  proof (cases j)
    case 0
    with Cons.prems show ?thesis by (simp add: depKey_def resKey_def)
  next
    case (Suc j')
    with Cons.prems have "deps ! j' \<in> set deps" by simp
    then have "depKey (deps ! j') \<in> depKey ` set deps" by (rule imageI)
    with Cons.prems Suc have "depKey d \<noteq> resKey r" by auto
    then have "\<not> (dep_Name d = Name r \<and> dep_Version d = Version r)"
      by (simp add: depKey_def resKey_def)
    moreover from Cons.prems Suc have "findIndex deps r (Suc k) = Some (Suc k + j')"
      by (intro Cons.IH) simp_all
    ultimately show ?thesis using Suc by simp
  qed
qed

lemma collectResults_snoc:
  "collectResults deps (rs @ [r]) = collectResult deps (collectResults deps rs) r"
  by (simp add: collectResults_def)

text \<open>
  With pairwise distinct keys in the work list, position \<open>i\<close> of the map holds the last
  result that arrived with the key of item \<open>i\<close>, stamped with \<open>i\<close>.
\<close>

lemma collectResults_at:
  assumes "distinct (map depKey deps)" and "i < length deps"
  shows "collectResults deps rs i =
           (if filter (\<lambda>r. resKey r = depKey (deps ! i)) rs = [] then None
            else Some ((last (filter (\<lambda>r. resKey r = depKey (deps ! i)) rs))\<lparr> Index := int i \<rparr>))"
proof (induction rs rule: rev_induct)
  case Nil
  then show ?case by (simp add: collectResults_def)
next
  case (snoc r rs)
  show ?case
  proof (cases "resKey r = depKey (deps ! i)")
    case True
    with assms have "findIndex deps r 0 = Some i"
      using findIndex_distinct[of deps i r 0] by simp
    with True show ?thesis
      by (simp add: collectResults_snoc collectResult_def)
  next
    case False
    have "collectResult deps (collectResults deps rs) r i = collectResults deps rs i"
    proof (cases "findIndex deps r 0")
      case None
      then show ?thesis by (simp add: collectResult_def)
    next
      case (Some j)
      from findIndex_Some[OF this] False have "j \<noteq> i" by auto
      with Some show ?thesis by (simp add: collectResult_def)
    qed
    with False snoc show ?thesis by (simp add: collectResults_snoc)
  qed
qed

lemma collectResults_dom: "collectResults deps rs i = Some r \<Longrightarrow> i < length deps"
proof (induction rs arbitrary: r rule: rev_induct)
  case Nil
  then show ?case by (simp add: collectResults_def)
next
  case (snoc x xs)
  then show ?case
    by (auto simp add: collectResults_snoc collectResult_def split: option.splits if_splits
          dest: findIndex_Some)
qed

lemma reportEntries_all:
  assumes "\<forall>i<length deps. m i \<noteq> None"
  shows "reportEntries deps m = map (\<lambda>i. (i, the (m i))) [0..<length deps]"
proof -
  have "List.map_filter (\<lambda>i. map_option (Pair i) (m i)) [0..<n] = map (\<lambda>i. (i, the (m i))) [0..<n]"
    if "\<forall>i<n. m i \<noteq> None" for n
    using that by (induction n) (auto simp add: map_filter_def)
  with assms show ?thesis by (simp add: reportEntries_def)
qed

lemma resKey_of_resId: "resKey r = (fst (resId r), fst (snd (resId r)))"
  by (simp add: resKey_def resId_def)

lemma depKey_of_depId: "depKey d = (fst (depId d), fst (snd (depId d)))"
  by (simp add: depKey_def depId_def)

lemma keys_of_ids:
  assumes "mset (map resId rs) = mset (map depId deps)"
  shows "mset (map resKey rs) = mset (map depKey deps)"
proof -
  have r: "map resKey rs = map (\<lambda>x. (fst x, fst (snd x))) (map resId rs)"
    by (simp add: resKey_of_resId)
  have k: "map depKey deps = map (\<lambda>x. (fst x, fst (snd x))) (map depId deps)"
    by (simp add: depKey_of_depId)
  have "mset (map (\<lambda>x. (fst x, fst (snd x))) (map resId rs))
          = image_mset (\<lambda>x. (fst x, fst (snd x))) (mset (map resId rs))"
    by (rule mset_map)
  also have "\<dots> = image_mset (\<lambda>x. (fst x, fst (snd x))) (mset (map depId deps))"
    by (simp only: assms)
  also have "\<dots> = mset (map (\<lambda>x. (fst x, fst (snd x))) (map depId deps))"
    by (rule mset_map[symmetric])
  finally show ?thesis by (simp only: r k)
qed

text \<open>The report for a work list with distinct keys, once every item has a result.\<close>

lemma report_complete:
  assumes d: "distinct (map depKey deps)"
    and ids: "mset (map resId rs) = mset (map depId deps)"
  shows "map fst (reportEntries deps (collectResults deps rs)) = [0..<length deps]"
    and "\<forall>i<length deps. \<exists>r\<in>set rs.
           reportEntries deps (collectResults deps rs) ! i = (i, r\<lparr> Index := int i \<rparr>)
           \<and> resId r = depId (deps ! i)"
proof -
  have keys: "set (map resKey rs) = set (map depKey deps)"
    using keys_of_ids[OF ids] by (metis set_mset_mset)
  have idset: "set (map resId rs) = set (map depId deps)"
    using ids by (metis set_mset_mset)
  have at: "\<exists>r\<in>set rs. collectResults deps rs i = Some (r\<lparr> Index := int i \<rparr>)
              \<and> resId r = depId (deps ! i)" if i: "i < length deps" for i
  proof -
    let ?fs = "filter (\<lambda>r. resKey r = depKey (deps ! i)) rs"
    from i have "deps ! i \<in> set deps" by simp
    then have "depKey (deps ! i) \<in> set (map depKey deps)" by simp
    then have "depKey (deps ! i) \<in> set (map resKey rs)" by (simp only: keys)
    then have ne: "?fs \<noteq> []" by (auto simp add: filter_empty_conv)
    then have "last ?fs \<in> set ?fs" by (rule last_in_set)
    then have r: "last ?fs \<in> set rs" and k: "resKey (last ?fs) = depKey (deps ! i)" by simp_all
    from r have "resId (last ?fs) \<in> set (map resId rs)" by simp
    then have "resId (last ?fs) \<in> set (map depId deps)" by (simp only: idset)
    then obtain j where j: "j < length deps" "resId (last ?fs) = depId (deps ! j)"
      by (auto simp add: in_set_conv_nth)
    then have "depKey (deps ! j) = depKey (deps ! i)"
      using k by (simp add: resKey_of_resId depKey_of_depId)
    then have "map depKey deps ! j = map depKey deps ! i" using i j(1) by simp
    moreover have "j < length (map depKey deps)" "i < length (map depKey deps)"
      using i j(1) by simp_all
    ultimately have "j = i" using d by (simp only: nth_eq_iff_index_eq)
    with j(2) have "resId (last ?fs) = depId (deps ! i)" by simp
    moreover have "collectResults deps rs i = Some ((last ?fs)\<lparr> Index := int i \<rparr>)"
      using ne by (simp add: collectResults_at[OF d i])
    ultimately show ?thesis using r by blast
  qed
  then have all: "\<forall>i<length deps. collectResults deps rs i \<noteq> None" by fastforce
  from reportEntries_all[OF all]
  have rep: "reportEntries deps (collectResults deps rs)
               = map (\<lambda>i. (i, the (collectResults deps rs i))) [0..<length deps]" .
  show "map fst (reportEntries deps (collectResults deps rs)) = [0..<length deps]"
    by (simp add: rep comp_def map_idI)
  show "\<forall>i<length deps. \<exists>r\<in>set rs.
           reportEntries deps (collectResults deps rs) ! i = (i, r\<lparr> Index := int i \<rparr>)
           \<and> resId r = depId (deps ! i)"
  proof (intro allI impI)
    fix i assume i: "i < length deps"
    from at[OF i] obtain r where "r \<in> set rs" "collectResults deps rs i = Some (r\<lparr> Index := int i \<rparr>)"
      "resId r = depId (deps ! i)" by blast
    with i show "\<exists>r\<in>set rs.
           reportEntries deps (collectResults deps rs) ! i = (i, r\<lparr> Index := int i \<rparr>)
           \<and> resId r = depId (deps ! i)"
      by (auto simp add: rep)
  qed
qed

lemma closed_pool:
  assumes "poolInv deps n p" and "0 < n"
  shows "closed p \<longleftrightarrow> jobs p = [] \<and> inFlight (workers p) = []"
  using assms by (auto simp add: closed_def poolInv_def inFlight_empty_iff)

text \<open>
  Claim C4, amended. Take a work list of \<open>N\<close> items whose (name, version) pairs are
  pairwise distinct, at least one worker, and any schedule the pool can follow. The
  schedule has at most \<open>2N\<close> events, and the results channel is closed exactly when it
  has \<open>2N\<close>; before that the pool can always take another step. Once the channel is
  closed, the items handed to the prober are the work list itself, each once; there are
  \<open>N\<close> results, which as a multiset carry the names, versions and types of the work
  list; and the report has \<open>N\<close> entries, at positions \<open>0, 1, \<dots>, N - 1\<close> in this order,
  the entry at position \<open>i\<close> being a result for item \<open>i\<close> stamped with \<open>i\<close>.
\<close>

theorem audit_report_complete_and_ordered:
  assumes "distinct (map depKey deps)" and "0 < numWorkers"
    and "run base tok sched (startPool deps numWorkers) = Some p"
  shows "length sched \<le> 2 * length deps
    \<and> (closed p \<longleftrightarrow> length sched = 2 * length deps)
    \<and> (\<not> closed p \<longrightarrow> (\<exists>e p'. exec base tok e p = Some p'))
    \<and> (closed p \<longrightarrow>
          auditDependenciesConcurrently deps base tok numWorkers sched
            = Some (auditOutput deps (results p))
          \<and> probed p = deps
          \<and> length (results p) = length deps
          \<and> mset (map resId (results p)) = mset (map depId deps)
          \<and> map fst (reportEntries deps (collectResults deps (results p))) = [0..<length deps]
          \<and> (\<forall>i<length deps. \<exists>r\<in>set (results p).
                reportEntries deps (collectResults deps (results p)) ! i = (i, r\<lparr> Index := int i \<rparr>)
                \<and> Name r = dep_Name (deps ! i) \<and> Version r = dep_Version (deps ! i)
                \<and> Type r = dep_Type (deps ! i)))"
proof -
  have inv: "poolInv deps (nat numWorkers) p"
    by (rule poolInv_run[OF poolInv_start assms(3)])
  have cnt: "length (probed p) + length (results p) = length sched"
    using run_counts[OF assms(3)] by (simp add: startPool_def)
  note sz = poolInv_sizes[OF inv]
  have n: "0 < nat numWorkers" using assms(2) by simp
  have cl: "closed p \<longleftrightarrow> jobs p = [] \<and> inFlight (workers p) = []"
    by (rule closed_pool[OF inv n])
  have bound: "length sched \<le> 2 * length deps"
    using cnt sz by linarith
  have whenclosed: "closed p \<longleftrightarrow> length sched = 2 * length deps"
  proof
    assume "closed p"
    with cl have "length (jobs p) = 0" "length (inFlight (workers p)) = 0" by simp_all
    with cnt sz show "length sched = 2 * length deps" by linarith
  next
    assume "length sched = 2 * length deps"
    with cnt sz have "length (jobs p) = 0" "length (inFlight (workers p)) = 0" by linarith+
    with cl show "closed p" by simp
  qed
  have prog: "\<exists>e p'. exec base tok e p = Some p'" if "\<not> closed p"
  proof -
    from inv n have "workers p \<noteq> []" by (auto simp add: poolInv_def)
    from pool_progress[OF this that] show ?thesis .
  qed
  have fin: "auditDependenciesConcurrently deps base tok numWorkers sched
            = Some (auditOutput deps (results p))
          \<and> probed p = deps
          \<and> length (results p) = length deps
          \<and> mset (map resId (results p)) = mset (map depId deps)
          \<and> map fst (reportEntries deps (collectResults deps (results p))) = [0..<length deps]
          \<and> (\<forall>i<length deps. \<exists>r\<in>set (results p).
                reportEntries deps (collectResults deps (results p)) ! i = (i, r\<lparr> Index := int i \<rparr>)
                \<and> Name r = dep_Name (deps ! i) \<and> Version r = dep_Version (deps ! i)
                \<and> Type r = dep_Type (deps ! i))" if c: "closed p"
  proof -
    from c cl have j: "jobs p = []" and f: "inFlight (workers p) = []" by simp_all
    from inv j have pr: "probed p = deps" by (simp add: poolInv_def)
    from inv f pr have ids: "mset (map resId (results p)) = mset (map depId deps)"
      by (simp add: poolInv_def)
    then have "size (mset (map resId (results p))) = size (mset (map depId deps))" by simp
    then have len: "length (results p) = length deps" by simp
    have out: "auditDependenciesConcurrently deps base tok numWorkers sched
            = Some (auditOutput deps (results p))"
      using assms(3) c by (simp add: auditDependenciesConcurrently_def)
    note rep = report_complete[OF assms(1) ids]
    have "\<exists>r\<in>set (results p).
                reportEntries deps (collectResults deps (results p)) ! i = (i, r\<lparr> Index := int i \<rparr>)
                \<and> Name r = dep_Name (deps ! i) \<and> Version r = dep_Version (deps ! i)
                \<and> Type r = dep_Type (deps ! i)" if "i < length deps" for i
      using rep(2) that by (fastforce simp add: resId_def depId_def)
    with out pr len ids rep(1) show ?thesis by blast
  qed
  from bound whenclosed prog fin show ?thesis by blast
qed

lemmas audit_eval = startPool_def closed_def checkNpmRegistry_def packageURL_def
  strings_HasPrefix_def Let_def collectResults_def collectResult_def reportEntries_def
  map_filter_def depKey_def

theorem audit_report_complete_and_ordered_witness:
  "distinct (map depKey [\<lparr> dep_Name = ''a'', dep_Version = ''1'', dep_Type = ''package'' \<rparr>,
                         \<lparr> dep_Name = ''b'', dep_Version = ''2'', dep_Type = ''package'' \<rparr>])
   \<and> run ''https://registry.npmjs.org'' ''''
         [Take 1, Take 0,
          Finish 0 \<lparr> newRequest = (\<lambda>_. None), clientDo = (\<lambda>_. Response 404) \<rparr>,
          Finish 1 \<lparr> newRequest = (\<lambda>_. None), clientDo = (\<lambda>_. Response 200) \<rparr>]
         (startPool [\<lparr> dep_Name = ''a'', dep_Version = ''1'', dep_Type = ''package'' \<rparr>,
                     \<lparr> dep_Name = ''b'', dep_Version = ''2'', dep_Type = ''package'' \<rparr>] 2)
       = Some \<lparr> jobs = [], workers = [None, None],
                probed = [\<lparr> dep_Name = ''a'', dep_Version = ''1'', dep_Type = ''package'' \<rparr>,
                          \<lparr> dep_Name = ''b'', dep_Version = ''2'', dep_Type = ''package'' \<rparr>],
                results = [\<lparr> Index = 0, Name = ''b'', Version = ''2'', Type = ''package'',
                             Status = statusNotFound, StatusCode = 404, Error = None \<rparr>,
                           \<lparr> Index = 0, Name = ''a'', Version = ''1'', Type = ''package'',
                             Status = statusAvailable, StatusCode = 200, Error = None \<rparr>] \<rparr>
   \<and> reportEntries [\<lparr> dep_Name = ''a'', dep_Version = ''1'', dep_Type = ''package'' \<rparr>,
                     \<lparr> dep_Name = ''b'', dep_Version = ''2'', dep_Type = ''package'' \<rparr>]
        (collectResults [\<lparr> dep_Name = ''a'', dep_Version = ''1'', dep_Type = ''package'' \<rparr>,
                         \<lparr> dep_Name = ''b'', dep_Version = ''2'', dep_Type = ''package'' \<rparr>]
           [\<lparr> Index = 0, Name = ''b'', Version = ''2'', Type = ''package'',
               Status = statusNotFound, StatusCode = 404, Error = None \<rparr>,
            \<lparr> Index = 0, Name = ''a'', Version = ''1'', Type = ''package'',
               Status = statusAvailable, StatusCode = 200, Error = None \<rparr>])
       = [(0, \<lparr> Index = 0, Name = ''a'', Version = ''1'', Type = ''package'',
                 Status = statusAvailable, StatusCode = 200, Error = None \<rparr>),
          (1, \<lparr> Index = 1, Name = ''b'', Version = ''2'', Type = ''package'',
                 Status = statusNotFound, StatusCode = 404, Error = None \<rparr>)]
   \<and> auditDependenciesConcurrently
         [\<lparr> dep_Name = ''a'', dep_Version = ''1'', dep_Type = ''package'' \<rparr>,
          \<lparr> dep_Name = ''b'', dep_Version = ''2'', dep_Type = ''package'' \<rparr>]
         ''https://registry.npmjs.org'' '''' 2
         [Take 1, Take 0,
          Finish 0 \<lparr> newRequest = (\<lambda>_. None), clientDo = (\<lambda>_. Response 404) \<rparr>,
          Finish 1 \<lparr> newRequest = (\<lambda>_. None), clientDo = (\<lambda>_. Response 200) \<rparr>]
       = Some (auditOutput
                 [\<lparr> dep_Name = ''a'', dep_Version = ''1'', dep_Type = ''package'' \<rparr>,
                  \<lparr> dep_Name = ''b'', dep_Version = ''2'', dep_Type = ''package'' \<rparr>]
                 [\<lparr> Index = 0, Name = ''b'', Version = ''2'', Type = ''package'',
                     Status = statusNotFound, StatusCode = 404, Error = None \<rparr>,
                  \<lparr> Index = 0, Name = ''a'', Version = ''1'', Type = ''package'',
                     Status = statusAvailable, StatusCode = 200, Error = None \<rparr>])"
proof -
  let ?deps = "[\<lparr> dep_Name = ''a'', dep_Version = ''1'', dep_Type = ''package'' \<rparr>,
                \<lparr> dep_Name = ''b'', dep_Version = ''2'', dep_Type = ''package'' \<rparr>]"
  let ?p = "\<lparr> jobs = [], workers = [None, None], probed = ?deps,
              results = [\<lparr> Index = 0, Name = ''b'', Version = ''2'', Type = ''package'',
                             Status = statusNotFound, StatusCode = 404, Error = None \<rparr>,
                         \<lparr> Index = 0, Name = ''a'', Version = ''1'', Type = ''package'',
                             Status = statusAvailable, StatusCode = 200, Error = None \<rparr>] \<rparr>"
  have d: "distinct (map depKey ?deps)" by (simp add: depKey_def)
  have w: "(0::int) < 2" by simp
  have r: "run ''https://registry.npmjs.org'' ''''
         [Take 1, Take 0,
          Finish 0 \<lparr> newRequest = (\<lambda>_. None), clientDo = (\<lambda>_. Response 404) \<rparr>,
          Finish 1 \<lparr> newRequest = (\<lambda>_. None), clientDo = (\<lambda>_. Response 200) \<rparr>]
         (startPool ?deps 2) = Some ?p"
    by (simp add: audit_eval numeral_2_eq_2)
  have c: "closed ?p" by (simp add: closed_def)
  have e: "reportEntries ?deps (collectResults ?deps (results ?p))
       = [(0, \<lparr> Index = 0, Name = ''a'', Version = ''1'', Type = ''package'',
                 Status = statusAvailable, StatusCode = 200, Error = None \<rparr>),
          (1, \<lparr> Index = 1, Name = ''b'', Version = ''2'', Type = ''package'',
                 Status = statusNotFound, StatusCode = 404, Error = None \<rparr>)]"
    by (simp add: audit_eval numeral_2_eq_2)
  from audit_report_complete_and_ordered[OF d w r] c d r e
  show ?thesis by simp
qed

text \<open>
  Claim C4 as it is stated fails for a work list that holds the same name and version
  twice: both items are probed, both results land on position \<open>0\<close>, and the report has
  one entry for two items (two progress lines, the line feed, one report line).
\<close>

theorem duplicate_items_share_one_report_entry:
  "run ''https://registry.npmjs.org'' ''''
     [Take 0, Finish 0 \<lparr> newRequest = (\<lambda>_. None), clientDo = (\<lambda>_. Response 200) \<rparr>,
      Take 0, Finish 0 \<lparr> newRequest = (\<lambda>_. None), clientDo = (\<lambda>_. Response 200) \<rparr>]
     (startPool [\<lparr> dep_Name = ''a'', dep_Version = ''1'', dep_Type = ''package'' \<rparr>,
                 \<lparr> dep_Name = ''a'', dep_Version = ''1'', dep_Type = ''package'' \<rparr>] 1)
     = Some \<lparr> jobs = [], workers = [None],
              probed = [\<lparr> dep_Name = ''a'', dep_Version = ''1'', dep_Type = ''package'' \<rparr>,
                        \<lparr> dep_Name = ''a'', dep_Version = ''1'', dep_Type = ''package'' \<rparr>],
              results = [\<lparr> Index = 0, Name = ''a'', Version = ''1'', Type = ''package'',
                           Status = statusAvailable, StatusCode = 200, Error = None \<rparr>,
                         \<lparr> Index = 0, Name = ''a'', Version = ''1'', Type = ''package'',
                           Status = statusAvailable, StatusCode = 200, Error = None \<rparr>] \<rparr>
   \<and> closed \<lparr> jobs = [], workers = [None],
              probed = [\<lparr> dep_Name = ''a'', dep_Version = ''1'', dep_Type = ''package'' \<rparr>,
                        \<lparr> dep_Name = ''a'', dep_Version = ''1'', dep_Type = ''package'' \<rparr>],
              results = [\<lparr> Index = 0, Name = ''a'', Version = ''1'', Type = ''package'',
                           Status = statusAvailable, StatusCode = 200, Error = None \<rparr>,
                         \<lparr> Index = 0, Name = ''a'', Version = ''1'', Type = ''package'',
                           Status = statusAvailable, StatusCode = 200, Error = None \<rparr>] \<rparr>
   \<and> reportEntries [\<lparr> dep_Name = ''a'', dep_Version = ''1'', dep_Type = ''package'' \<rparr>,
                     \<lparr> dep_Name = ''a'', dep_Version = ''1'', dep_Type = ''package'' \<rparr>]
        (collectResults [\<lparr> dep_Name = ''a'', dep_Version = ''1'', dep_Type = ''package'' \<rparr>,
                         \<lparr> dep_Name = ''a'', dep_Version = ''1'', dep_Type = ''package'' \<rparr>]
           [\<lparr> Index = 0, Name = ''a'', Version = ''1'', Type = ''package'',
               Status = statusAvailable, StatusCode = 200, Error = None \<rparr>,
            \<lparr> Index = 0, Name = ''a'', Version = ''1'', Type = ''package'',
               Status = statusAvailable, StatusCode = 200, Error = None \<rparr>])
       = [(0, \<lparr> Index = 0, Name = ''a'', Version = ''1'', Type = ''package'',
                 Status = statusAvailable, StatusCode = 200, Error = None \<rparr>)]
   \<and> map_option length
         (auditDependenciesConcurrently
            [\<lparr> dep_Name = ''a'', dep_Version = ''1'', dep_Type = ''package'' \<rparr>,
             \<lparr> dep_Name = ''a'', dep_Version = ''1'', dep_Type = ''package'' \<rparr>]
            ''https://registry.npmjs.org'' '''' 1
            [Take 0, Finish 0 \<lparr> newRequest = (\<lambda>_. None), clientDo = (\<lambda>_. Response 200) \<rparr>,
             Take 0, Finish 0 \<lparr> newRequest = (\<lambda>_. None), clientDo = (\<lambda>_. Response 200) \<rparr>])
       = Some 4"
  by (simp add: audit_eval auditDependenciesConcurrently_def auditOutput_def)

section \<open>The worker count and the indirect dependencies\<close>

text \<open>
  Claim C2 against the code. The arguments \<open>0\<close> and \<open>-3\<close> are scanned as numbers, no
  warning is printed, and the pool starts without a worker: it can take no step, the
  results channel is closed at once, and the function prints nothing but the line feed.
  With five workers the same work list is probed and reported. An argument such as
  \<open>3x\<close> counts as \<open>3\<close>; only an argument that does not start with a number gives \<open>5\<close>.
\<close>

theorem zero_workers_accepted_and_nothing_audited:
  "main_numWorkers [''audit'', ''pnpm-lock.yaml'', ''https://registry.npmjs.org'', '''', ''0'']
     = (0, [])
   \<and> main_numWorkers [''audit'', ''pnpm-lock.yaml'', ''https://registry.npmjs.org'', '''', ''-3'']
     = (- 3, [])
   \<and> main_numWorkers [''audit'', ''pnpm-lock.yaml'', ''https://registry.npmjs.org'', '''', ''3x'']
     = (3, [])
   \<and> fst (main_numWorkers [''audit'', ''pnpm-lock.yaml'', ''https://registry.npmjs.org'', '''', ''many''])
     = 5
   \<and> exec base tok e (startPool deps 0) = None
   \<and> exec base tok e (startPool deps (- 3)) = None
   \<and> auditDependenciesConcurrently
         [\<lparr> dep_Name = ''a'', dep_Version = ''1'', dep_Type = ''package'' \<rparr>]
         ''https://registry.npmjs.org'' '''' 0 []
     = Some [[CHR 0x0A]]
   \<and> auditDependenciesConcurrently
         [\<lparr> dep_Name = ''a'', dep_Version = ''1'', dep_Type = ''package'' \<rparr>]
         ''https://registry.npmjs.org'' '''' 5
         [Take 0, Finish 0 \<lparr> newRequest = (\<lambda>_. None), clientDo = (\<lambda>_. Response 200) \<rparr>]
     = Some [progressLine 1 1, [CHR 0x0A],
             reportLine 1 (0, \<lparr> Index = 0, Name = ''a'', Version = ''1'', Type = ''package'',
                                 Status = statusAvailable, StatusCode = 200, Error = None \<rparr>)]"
proof -
  have s0: "Sscanf_d ''0'' = Some 0"
    by (simp add: Sscanf_d_def spacePrefix_def isDigit_def digitsValue_def Let_def)
  have s3: "Sscanf_d ''-3'' = Some (- 3)"
    by (simp add: Sscanf_d_def spacePrefix_def isDigit_def digitsValue_def Let_def)
  have sx: "Sscanf_d ''3x'' = Some 3"
    by (simp add: Sscanf_d_def spacePrefix_def isDigit_def digitsValue_def Let_def)
  have sm: "Sscanf_d ''many'' = None"
    by (simp add: Sscanf_d_def spacePrefix_def isDigit_def digitsValue_def Let_def)
  have e0: "exec base tok e (startPool deps 0) = None"
    by (cases e) (simp_all add: startPool_def split: list.splits)
  have e3: "exec base tok e (startPool deps (- 3)) = None"
    by (cases e) (simp_all add: startPool_def split: list.splits)
  have a0: "auditDependenciesConcurrently
         [\<lparr> dep_Name = ''a'', dep_Version = ''1'', dep_Type = ''package'' \<rparr>]
         ''https://registry.npmjs.org'' '''' 0 [] = Some [[CHR 0x0A]]"
    by (simp add: audit_eval auditDependenciesConcurrently_def auditOutput_def)
  have a5: "auditDependenciesConcurrently
         [\<lparr> dep_Name = ''a'', dep_Version = ''1'', dep_Type = ''package'' \<rparr>]
         ''https://registry.npmjs.org'' '''' 5
         [Take 0, Finish 0 \<lparr> newRequest = (\<lambda>_. None), clientDo = (\<lambda>_. Response 200) \<rparr>]
     = Some [progressLine 1 1, [CHR 0x0A],
             reportLine 1 (0, \<lparr> Index = 0, Name = ''a'', Version = ''1'', Type = ''package'',
                                 Status = statusAvailable, StatusCode = 200, Error = None \<rparr>)]"
    by (simp add: audit_eval auditDependenciesConcurrently_def auditOutput_def eval_nat_numeral)
  from s0 s3 sx sm e0 e3 a0 a5 show ?thesis
    by (simp add: main_numWorkers_def)
qed

lemma matchHere_rest:
  assumes "matchHere (c # t) = Some (n, v, rest)"
  shows "length rest \<le> length t"
proof -
  from assms obtain x u where u: "dropWhile (\<lambda>x. x \<noteq> CHR ''@'') t = x # u"
    by (cases "dropWhile (\<lambda>x. x \<noteq> CHR ''@'') t")
       (simp_all add: matchHere_def Let_def del: dropWhile_eq_Nil_conv split: if_splits)
  from assms u obtain y where r: "dropWhile (\<lambda>x. x \<noteq> CHR '')'') u = y # rest"
    by (cases "dropWhile (\<lambda>x. x \<noteq> CHR '')'') u")
       (simp_all add: matchHere_def Let_def del: dropWhile_eq_Nil_conv split: if_splits)
  have "length (y # rest) \<le> length u"
    using length_dropWhile_le[of "\<lambda>x. x \<noteq> CHR '')''" u] by (simp only: r)
  moreover have "length (x # u) \<le> length t"
    using length_dropWhile_le[of "\<lambda>x. x \<noteq> CHR ''@''" t] by (simp only: u)
  ultimately show ?thesis by simp
qed

lemma findAll_Nil: "findAll k [] = []"
  by (cases k) simp_all

lemma findAll_fuel:
  "length s \<le> k \<Longrightarrow> length s \<le> k' \<Longrightarrow> findAll k s = findAll k' s"
proof (induction k arbitrary: k' s)
  case 0
  then show ?case by (simp add: findAll_Nil)
next
  case (Suc k)
  show ?case
  proof (cases s)
    case Nil
    then show ?thesis by (simp add: findAll_Nil)
  next
    case (Cons c t)
    with Suc.prems obtain k'' where k': "k' = Suc k''" by (cases k') simp_all
    from Suc.prems Cons k' have t: "length t \<le> k" "length t \<le> k''" by simp_all
    show ?thesis
    proof (cases "matchHere (c # t)")
      case None
      have "findAll k t = findAll k'' t" by (rule Suc.IH[OF t])
      with None show ?thesis by (simp only: Cons k' findAll.simps option.case)
    next
      case (Some a)
      obtain n v rest where a: "a = (n, v, rest)" by (cases a)
      from matchHere_rest[OF Some[unfolded a]] t
      have "length rest \<le> k" "length rest \<le> k''" by simp_all
      then have "findAll k rest = findAll k'' rest" by (rule Suc.IH)
      with Some a show ?thesis by (simp only: Cons k' findAll.simps option.case prod.case)
    qed
  qed
qed

lemma parsed_records_are_packages:
  assumes "parsePnpmLock yaml fs path = Inr t" and "Packages t n = Some info"
  shows "pkg_Type info = ''package''"
proof -
  have step: "\<forall>n info. processEntry m e n = Some info \<longrightarrow> pkg_Type info = ''package''"
    if "\<forall>n info. m n = Some info \<longrightarrow> pkg_Type info = ''package''" for m e
    using that by (cases e) (auto simp add: processEntry_def split: prod.splits if_splits)
  have all: "\<forall>n info. foldl processEntry m es n = Some info \<longrightarrow> pkg_Type info = ''package''"
    if "\<forall>n info. m n = Some info \<longrightarrow> pkg_Type info = ''package''" for m es
    using that
  proof (induction es arbitrary: m)
    case Nil
    then show ?case by simp
  next
    case (Cons e es)
    from Cons.IH[OF step[OF Cons.prems]] show ?case by simp
  qed
  from assms(1) obtain lockData where "t = \<lparr> Packages = foldl processEntry Map.empty lockData \<rparr>"
    by (auto simp add: parsePnpmLock_def split: file_state.splits sum.splits)
  with assms(2) all[of Map.empty lockData] show ?thesis by simp
qed

text \<open>
  Claim C1 against the code. For the lock key \<^verbatim>\<open>bar@1.0.0(foo@2.3.0)\<close> the parser
  returns a tree with the one record \<open>bar\<close> and no record \<open>foo\<close>, although
  \<^verbatim>\<open>extractIndirectDependencies\<close> applied to the version string of that record yields
  \<open>foo\<close> at \<open>2.3.0\<close> with type \<open>indirect\<close>: the parser never calls it.
\<close>

theorem indirect_dependency_not_recorded:
  "parsePnpmLock (\<lambda>_. Inr [(''bar@1.0.0(foo@2.3.0)'', Map.empty)]) (\<lambda>_. Content ''doc'') ''lock''
     = Inr \<lparr> Packages = [''bar'' \<mapsto> \<lparr> pkg_Version = ''1.0.0(foo@2.3.0)'', pkg_Type = ''package'',
                                       pkg_Resolution = None, pkg_Engines = None \<rparr>] \<rparr>
   \<and> [''bar'' \<mapsto> \<lparr> pkg_Version = ''1.0.0(foo@2.3.0)'', pkg_Type = ''package'',
                     pkg_Resolution = None, pkg_Engines = None \<rparr>] ''foo'' = None
   \<and> extractIndirectDependencies ''1.0.0(foo@2.3.0)'' ''foo''
     = Some \<lparr> pkg_Version = ''2.3.0'', pkg_Type = ''indirect'',
              pkg_Resolution = None, pkg_Engines = None \<rparr>"
proof -
  have f: "findAll (length ''1.0.0(foo@2.3.0)'') ''1.0.0(foo@2.3.0)'' = [(''foo'', ''2.3.0'')]"
    by (simp add: matchHere_def eval_nat_numeral)
  have x: "extractIndirectDependencies ''1.0.0(foo@2.3.0)'' ''foo''
     = Some \<lparr> pkg_Version = ''2.3.0'', pkg_Type = ''indirect'',
              pkg_Resolution = None, pkg_Engines = None \<rparr>"
    unfolding extractIndirectDependencies_def f by simp
  show ?thesis
    by (simp add: parsePnpmLock_def processEntry_def parsePackageKey_eval x)
qed

end
